theory Spec2Isabelle
  imports Complex_Main
begin

section \<open>Data model\<close>

text \<open>
  The functions of \<^verbatim>\<open>EventPreProcess.py\<close> work on numpy rows
  \<^verbatim>\<open>[x, y, ts, polarity]\<close> and on numpy arrays of shape
  \<^verbatim>\<open>(im_height, im_width, channels)\<close>. Numbers are modelled as reals: the
  counters of the source are floats that hold small integers exactly, and the
  timestamps used in the concrete evaluations below are exactly representable.
  Every exception the source can raise is a value of \<open>py_error\<close>.
\<close>

datatype py_error = IndexError | ZeroDivisionError | ValueError | OverflowError

text \<open>An event row: \<^verbatim>\<open>event[0]\<close>, \<^verbatim>\<open>event[1]\<close>, \<^verbatim>\<open>event[2]\<close>, \<^verbatim>\<open>event[3]\<close>.\<close>

datatype event = Event (ev_x: real) (ev_y: real) (ev_ts: real) (ev_pol: real)

text \<open>
  An array of shape \<open>(h, w, c)\<close> is a function from \<open>(row, column, channel)\<close>; the
  shape is passed beside it, and every access checks it as numpy does. A matrix of
  shape \<open>(h, w)\<close> is a function from \<open>(row, column)\<close>.
\<close>

type_synonym image = "nat \<times> nat \<times> nat \<Rightarrow> real"
type_synonym matrix = "nat \<times> nat \<Rightarrow> real"

definition np_zeros3 :: image where
  "np_zeros3 = (\<lambda>_. 0)"

definition np_zeros2 :: matrix where
  "np_zeros2 = (\<lambda>_. 0)"

text \<open>Python's \<^verbatim>\<open>int(r)\<close> on a float: truncation towards zero.\<close>

definition py_int :: "real \<Rightarrow> int" where
  "py_int r = (if 0 \<le> r then \<lfloor>r\<rfloor> else \<lceil>r\<rceil>)"

text \<open>
  An index into an axis of length \<open>n\<close>: a negative index counts from the end, and an
  index outside \<open>[-n, n)\<close> raises \<open>IndexError\<close> (here \<open>None\<close>).
\<close>

definition np_index :: "nat \<Rightarrow> int \<Rightarrow> nat option" where
  "np_index n i =
     (if 0 \<le> i \<and> i < int n then Some (nat i)
      else if - int n \<le> i \<and> i < 0 then Some (nat (int n + i))
      else None)"

text \<open>The pixel \<^verbatim>\<open>[int(event[1]), int(event[0])]\<close> of an event.\<close>

definition pixel_of :: "nat \<Rightarrow> nat \<Rightarrow> event \<Rightarrow> (nat \<times> nat) option" where
  "pixel_of h w e =
     (case np_index h (py_int (ev_y e)) of
        None \<Rightarrow> None
      | Some y \<Rightarrow> (case np_index w (py_int (ev_x e)) of
                    None \<Rightarrow> None
                  | Some x \<Rightarrow> Some (y, x)))"

text \<open>
  \<^verbatim>\<open>img[int(e[1]), int(e[0]), k] = img[int(e[1]), int(e[0]), k] + v\<close>
\<close>

definition img_add :: "nat \<Rightarrow> nat \<Rightarrow> nat \<Rightarrow> image \<Rightarrow> event \<Rightarrow> int \<Rightarrow> real \<Rightarrow> py_error + image" where
  "img_add h w c img e k v =
     (case pixel_of h w e of
        None \<Rightarrow> Inl IndexError
      | Some (y, x) \<Rightarrow>
          (case np_index c k of
             None \<Rightarrow> Inl IndexError
           | Some ch \<Rightarrow> Inr (img((y, x, ch) := img (y, x, ch) + v))))"

text \<open>\<^verbatim>\<open>img[y, x, k] = v\<close> at constant non-negative indices.\<close>

definition img_set :: "nat \<Rightarrow> nat \<Rightarrow> nat \<Rightarrow> image \<Rightarrow> nat \<Rightarrow> nat \<Rightarrow> nat \<Rightarrow> real \<Rightarrow> py_error + image" where
  "img_set h w c img y x k v =
     (if y < h \<and> x < w \<and> k < c then Inr (img((y, x, k) := v)) else Inl IndexError)"

section \<open>ConcatenateEvents\<close>

text \<open>
  \<^verbatim>\<open>np.divide(a, b, where=b != 0)\<close> is called without \<^verbatim>\<open>out=\<close>: numpy
  allocates a fresh array and writes the quotient only where the condition holds, so
  the other entries keep whatever the fresh allocation held. That content is the
  parameter \<open>fresh\<close>.
\<close>

definition np_divide_where :: "matrix \<Rightarrow> matrix \<Rightarrow> matrix \<Rightarrow> matrix" where
  "np_divide_where a b fresh = (\<lambda>p. if b p \<noteq> 0 then a p / b p else fresh p)"

text \<open>\<^verbatim>\<open>img[:, :, k] = m\<close>\<close>

definition set_channel :: "nat \<Rightarrow> nat \<Rightarrow> nat \<Rightarrow> image \<Rightarrow> matrix \<Rightarrow> image" where
  "set_channel h w k img m =
     (\<lambda>(y, x, ch). if y < h \<and> x < w \<and> ch = k then m (y, x) else img (y, x, ch))"

text \<open>
  Lines 34 to 41: one event that does not exceed \<open>ts\<close> is added to the frame, to the
  counter matrix and to the timestamp matrix.
\<close>

definition ce_accumulate ::
  "nat \<Rightarrow> nat \<Rightarrow> real \<Rightarrow> real \<Rightarrow> event \<Rightarrow> image \<times> matrix \<times> matrix
     \<Rightarrow> py_error + image \<times> matrix \<times> matrix" where
  "ce_accumulate h w ts time_step e s =
     (case s of (img, cnt, tsm) \<Rightarrow>
        (case img_add h w 3 img e (if ev_pol e > 0 then 0 else 1) 1 of
           Inl err \<Rightarrow> Inl err
         | Inr img' \<Rightarrow>
             (case pixel_of h w e of
                None \<Rightarrow> Inl IndexError
              | Some p \<Rightarrow>
                  Inr (img', cnt(p := cnt p + 1),
                       tsm(p := \<bar>ts - ev_ts e - time_step\<bar> / time_step + tsm p)))))"

text \<open>
  The inner loop \<^verbatim>\<open>for i in range(event_iterator, len(event_list))\<close>. The
  source sets \<^verbatim>\<open>event_iterator = i + 1\<close> first and tests the timestamp after.
  The result says whether the loop left by \<^verbatim>\<open>break\<close>, and gives the value of
  \<^verbatim>\<open>event_iterator\<close> and the arrays at that point.
\<close>

function ce_inner ::
  "nat \<Rightarrow> nat \<Rightarrow> real \<Rightarrow> real \<Rightarrow> event list \<Rightarrow> nat \<Rightarrow> image \<times> matrix \<times> matrix
     \<Rightarrow> py_error + bool \<times> nat \<times> (image \<times> matrix \<times> matrix)" where
  "ce_inner h w ts time_step event_list i s =
     (if i < length event_list then
        (if ev_ts (event_list ! i) > ts then Inr (True, i + 1, s)
         else (case ce_accumulate h w ts time_step (event_list ! i) s of
                 Inl err \<Rightarrow> Inl err
               | Inr s' \<Rightarrow> ce_inner h w ts time_step event_list (i + 1) s'))
      else Inr (False, i, s))"
  by pat_completeness auto
termination
  by (relation "measure (\<lambda>(h, w, ts, time_step, event_list, i, s). length event_list - i)") auto

declare ce_inner.simps [simp del]

text \<open>
  The outer loop \<^verbatim>\<open>for ts in time_steps\<close>. The progress line divides by
  \<^verbatim>\<open>len(event_list)\<close>. \<open>fresh k\<close> is what the allocation of the quotient array
  holds when \<open>k\<close> frames have been emitted.
\<close>

fun ce_outer ::
  "(nat \<Rightarrow> matrix) \<Rightarrow> nat \<Rightarrow> nat \<Rightarrow> real \<Rightarrow> event list \<Rightarrow> real list \<Rightarrow> nat \<Rightarrow> image list
     \<Rightarrow> py_error + image list \<times> nat" where
  "ce_outer fresh h w time_step event_list [] event_iterator event_images_list =
     Inr (event_images_list, event_iterator)"
| "ce_outer fresh h w time_step event_list (ts # time_steps) event_iterator event_images_list =
     (if length event_list = 0 then Inl ZeroDivisionError
      else (case ce_inner h w ts time_step event_list event_iterator
                   (np_zeros3, np_zeros2, np_zeros2) of
              Inl err \<Rightarrow> Inl err
            | Inr (emitted, event_iterator', img, cnt, tsm) \<Rightarrow>
                ce_outer fresh h w time_step event_list time_steps event_iterator'
                  (if emitted
                   then event_images_list @
                     [set_channel h w 2 img
                        (np_divide_where tsm cnt (fresh (length event_images_list)))]
                   else event_images_list)))"

definition ConcatenateEvents ::
  "(nat \<Rightarrow> matrix) \<Rightarrow> event list \<Rightarrow> real list \<Rightarrow> nat \<Rightarrow> nat
     \<Rightarrow> py_error + image list \<times> event list" where
  "ConcatenateEvents fresh event_list time_steps im_height im_width =
     (if length time_steps < 2 then Inl IndexError
      else (case ce_outer fresh im_height im_width
                   (time_steps ! (length time_steps - 1) - time_steps ! (length time_steps - 2))
                   event_list time_steps 0 [] of
              Inl err \<Rightarrow> Inl err
            | Inr (event_images_list, event_iterator) \<Rightarrow>
                Inr (event_images_list, drop event_iterator event_list)))"

section \<open>generateFrames\<close>

text \<open>
  The inner loop of \<^verbatim>\<open>generateFrames\<close>. An event outside the time window is
  passed over; an event beyond \<open>ts\<close> writes 0 to \<^verbatim>\<open>event_image[201, 154, 0]\<close>,
  emits the frame and breaks.
\<close>

function gf_inner ::
  "nat \<Rightarrow> nat \<Rightarrow> nat \<Rightarrow> real \<Rightarrow> real option \<Rightarrow> event list \<Rightarrow> nat \<Rightarrow> image
     \<Rightarrow> py_error + bool \<times> nat \<times> image" where
  "gf_inner h w c ts time_window event_list i img =
     (if i < length event_list then
        (if (case time_window of None \<Rightarrow> True | Some tw \<Rightarrow> ev_ts (event_list ! i) > ts - tw) then
           (if ev_ts (event_list ! i) > ts then
              (case img_set h w c img 201 154 0 0 of
                 Inl err \<Rightarrow> Inl err
               | Inr img' \<Rightarrow> Inr (True, i + 1, img'))
            else (case img_add h w c img (event_list ! i) 0
                         (if ev_pol (event_list ! i) > 0 then 1 else - 1) of
                    Inl err \<Rightarrow> Inl err
                  | Inr img' \<Rightarrow> gf_inner h w c ts time_window event_list (i + 1) img'))
         else gf_inner h w c ts time_window event_list (i + 1) img)
      else Inr (False, i, img))"
  by pat_completeness auto
termination
  by (relation "measure (\<lambda>(h, w, c, ts, tw, event_list, i, img). length event_list - i)") auto

declare gf_inner.simps [simp del]

fun gf_outer ::
  "nat \<Rightarrow> nat \<Rightarrow> nat \<Rightarrow> real option \<Rightarrow> event list \<Rightarrow> real list \<Rightarrow> nat \<Rightarrow> image list
     \<Rightarrow> py_error + image list \<times> nat" where
  "gf_outer h w c time_window event_list [] event_iterator event_images_list =
     Inr (event_images_list, event_iterator)"
| "gf_outer h w c time_window event_list (ts # time_steps) event_iterator event_images_list =
     (case gf_inner h w c ts time_window event_list event_iterator np_zeros3 of
        Inl err \<Rightarrow> Inl err
      | Inr (emitted, event_iterator', img) \<Rightarrow>
          gf_outer h w c time_window event_list time_steps event_iterator'
            (if emitted then event_images_list @ [img] else event_images_list))"

definition generateFrames ::
  "event list \<Rightarrow> real list \<Rightarrow> nat \<Rightarrow> nat \<Rightarrow> nat \<Rightarrow> real option
     \<Rightarrow> py_error + image list \<times> event list" where
  "generateFrames event_list time_steps im_height im_width im_channel time_window =
     (case gf_outer im_height im_width im_channel time_window event_list time_steps 0 [] of
        Inl err \<Rightarrow> Inl err
      | Inr (event_images_list, event_iterator) \<Rightarrow>
          Inr (event_images_list, drop event_iterator event_list))"

section \<open>generateFrames_temporalROI\<close>

definition event_threshold_classifier :: nat where
  "event_threshold_classifier = 10000"

text \<open>
  The inner loop: the frame is emitted when \<^verbatim>\<open>event_bus\<close> has reached the
  threshold and one more event is read; \<^verbatim>\<open>event_bus\<close> is kept from one grid
  entry to the next.
\<close>

function roi_inner ::
  "nat \<Rightarrow> nat \<Rightarrow> nat \<Rightarrow> nat \<Rightarrow> event list \<Rightarrow> nat \<Rightarrow> nat \<Rightarrow> image
     \<Rightarrow> py_error + bool \<times> nat \<times> nat \<times> image" where
  "roi_inner h w c threshold event_list i event_bus img =
     (if i < length event_list then
        (if event_bus = threshold then
           (case img_set h w c img 201 154 0 0 of
              Inl err \<Rightarrow> Inl err
            | Inr img' \<Rightarrow> Inr (True, i + 1, 0, img'))
         else (case img_add h w c img (event_list ! i) 0
                      (if ev_pol (event_list ! i) > 0 then 1 else - 1) of
                 Inl err \<Rightarrow> Inl err
               | Inr img' \<Rightarrow> roi_inner h w c threshold event_list (i + 1) (event_bus + 1) img'))
      else Inr (False, i, event_bus, img))"
  by pat_completeness auto
termination
  by (relation "measure (\<lambda>(h, w, c, threshold, event_list, i, bus, img). length event_list - i)")
     auto

declare roi_inner.simps [simp del]

fun roi_outer ::
  "nat \<Rightarrow> nat \<Rightarrow> nat \<Rightarrow> nat \<Rightarrow> event list \<Rightarrow> real list \<Rightarrow> nat \<Rightarrow> nat \<Rightarrow> image list
     \<Rightarrow> py_error + image list \<times> nat" where
  "roi_outer h w c threshold event_list [] event_iterator event_bus event_images_list =
     Inr (event_images_list, event_iterator)"
| "roi_outer h w c threshold event_list (ts # time_steps) event_iterator event_bus
       event_images_list =
     (case roi_inner h w c threshold event_list event_iterator event_bus np_zeros3 of
        Inl err \<Rightarrow> Inl err
      | Inr (emitted, event_iterator', event_bus', img) \<Rightarrow>
          roi_outer h w c threshold event_list time_steps event_iterator' event_bus'
            (if emitted then event_images_list @ [img] else event_images_list))"

definition generateFrames_temporalROI ::
  "event list \<Rightarrow> real list \<Rightarrow> nat \<Rightarrow> nat \<Rightarrow> nat \<Rightarrow> py_error + image list \<times> event list" where
  "generateFrames_temporalROI event_list time_steps im_height im_width im_channel =
     (case roi_outer im_height im_width im_channel event_threshold_classifier
             event_list time_steps 0 0 [] of
        Inl err \<Rightarrow> Inl err
      | Inr (event_images_list, event_iterator) \<Rightarrow>
          Inr (event_images_list, drop event_iterator event_list))"

section \<open>EventBinning\<close>

text \<open>
  The first loop looks for the first event beyond \<open>ts\<close> from the leading iterator on;
  when none is found the leading iterator keeps its value.
\<close>

function eb_leading :: "real \<Rightarrow> event list \<Rightarrow> nat \<Rightarrow> nat \<Rightarrow> nat" where
  "eb_leading ts event_list i event_leading_iterator =
     (if i < length event_list then
        (if ev_ts (event_list ! i) > ts then i
         else eb_leading ts event_list (i + 1) event_leading_iterator)
      else event_leading_iterator)"
  by pat_completeness auto
termination
  by (relation "measure (\<lambda>(ts, event_list, i, l). length event_list - i)") auto

declare eb_leading.simps [simp del]

text \<open>
  The second loop looks, between the trailing and the leading iterator, for the first
  event newer than the bound \<open>ts - n_bin * bin_step_size\<close>; when none is found the
  trailing iterator keeps its value.
\<close>

function eb_trailing :: "real \<Rightarrow> event list \<Rightarrow> nat \<Rightarrow> nat \<Rightarrow> nat \<Rightarrow> nat" where
  "eb_trailing bound event_list event_leading_iterator i event_trailing_iterator =
     (if i < event_leading_iterator then
        (if ev_ts (event_list ! i) > bound then i
         else eb_trailing bound event_list event_leading_iterator (i + 1) event_trailing_iterator)
      else event_trailing_iterator)"
  by pat_completeness auto
termination
  by (relation "measure (\<lambda>(bound, event_list, l, i, t). l - i)") auto

declare eb_trailing.simps [simp del]

text \<open>
  \<^verbatim>\<open>int(np.floor((ts - event[2]) / bin_step_size))\<close>: with a zero step the
  quotient is infinite or not a number, and \<^verbatim>\<open>int\<close> raises.
\<close>

definition eb_channel :: "real \<Rightarrow> real \<Rightarrow> event \<Rightarrow> py_error + int" where
  "eb_channel ts bin_step_size e =
     (if bin_step_size = 0
      then (if ts - ev_ts e = 0 then Inl ValueError else Inl OverflowError)
      else Inr \<lfloor>(ts - ev_ts e) / bin_step_size\<rfloor>)"

text \<open>The third loop adds the polarity of every event between the two iterators.\<close>

function eb_bin ::
  "nat \<Rightarrow> nat \<Rightarrow> nat \<Rightarrow> real \<Rightarrow> real \<Rightarrow> event list \<Rightarrow> nat \<Rightarrow> nat \<Rightarrow> image \<Rightarrow> py_error + image" where
  "eb_bin h w n_bin ts bin_step_size event_list event_leading_iterator i img =
     (if i < event_leading_iterator then
        (case eb_channel ts bin_step_size (event_list ! i) of
           Inl err \<Rightarrow> Inl err
         | Inr channel \<Rightarrow>
             (case img_add h w n_bin img (event_list ! i) channel (ev_pol (event_list ! i)) of
                Inl err \<Rightarrow> Inl err
              | Inr img' \<Rightarrow>
                  eb_bin h w n_bin ts bin_step_size event_list event_leading_iterator (i + 1) img'))
      else Inr img)"
  by pat_completeness auto
termination
  by (relation "measure (\<lambda>(h, w, n, ts, st, event_list, l, i, img). l - i)") auto

declare eb_bin.simps [simp del]

fun eb_outer ::
  "nat \<Rightarrow> nat \<Rightarrow> nat \<Rightarrow> real \<Rightarrow> event list \<Rightarrow> real list \<Rightarrow> nat \<Rightarrow> nat \<Rightarrow> image list
     \<Rightarrow> py_error + image list" where
  "eb_outer h w n_bin bin_step_size event_list [] event_leading_iterator
       event_trailing_iterator event_images_list = Inr event_images_list"
| "eb_outer h w n_bin bin_step_size event_list (ts # time_steps) event_leading_iterator
       event_trailing_iterator event_images_list =
     (if length event_list = 0 then Inl ZeroDivisionError
      else (case eb_bin h w n_bin ts bin_step_size event_list
                   (eb_leading ts event_list event_leading_iterator event_leading_iterator)
                   (eb_trailing (ts - real n_bin * bin_step_size) event_list
                      (eb_leading ts event_list event_leading_iterator event_leading_iterator)
                      event_trailing_iterator event_trailing_iterator)
                   np_zeros3 of
              Inl err \<Rightarrow> Inl err
            | Inr img \<Rightarrow>
                eb_outer h w n_bin bin_step_size event_list time_steps
                  (eb_leading ts event_list event_leading_iterator event_leading_iterator)
                  (eb_trailing (ts - real n_bin * bin_step_size) event_list
                     (eb_leading ts event_list event_leading_iterator event_leading_iterator)
                     event_trailing_iterator event_trailing_iterator)
                  (event_images_list @ [img])))"

definition EventBinning ::
  "event list \<Rightarrow> real list \<Rightarrow> nat \<Rightarrow> nat \<Rightarrow> nat \<Rightarrow> real \<Rightarrow> py_error + image list" where
  "EventBinning event_list time_steps im_height im_width n_bin bin_step_size =
     eb_outer im_height im_width n_bin bin_step_size event_list time_steps 0 0 []"

section \<open>SelectFrames\<close>

text \<open>
  The inner loop over \<^verbatim>\<open>range(images_iterator, len(images_list))\<close>: the result
  is the new value of \<^verbatim>\<open>images_iterator\<close> and the frame appended, if any.
\<close>

function sf_inner ::
  "'a list \<Rightarrow> real list \<Rightarrow> real \<Rightarrow> real \<Rightarrow> nat \<Rightarrow> nat \<Rightarrow> py_error + nat \<times> 'a option" where
  "sf_inner images_list images_ts ts target_step images_iterator i =
     (if i < length images_list then
        (if i < length images_ts then
           (if \<bar>images_ts ! i - ts\<bar> < target_step then Inr (i + 1, Some (images_list ! i))
            else if images_ts ! i - ts > 1 then Inr (images_iterator, None)
            else sf_inner images_list images_ts ts target_step images_iterator (i + 1))
         else Inl IndexError)
      else Inr (images_iterator, None))"
  by pat_completeness auto
termination
  by (relation "measure (\<lambda>(images_list, images_ts, ts, st, it, i). length images_list - i)") auto

declare sf_inner.simps [simp del]

fun sf_outer ::
  "'a list \<Rightarrow> real list \<Rightarrow> real \<Rightarrow> real list \<Rightarrow> nat \<Rightarrow> 'a list \<Rightarrow> py_error + 'a list" where
  "sf_outer images_list images_ts target_step [] images_iterator desired_frames =
     Inr desired_frames"
| "sf_outer images_list images_ts target_step (ts # desired_timesteps) images_iterator
       desired_frames =
     (case sf_inner images_list images_ts ts target_step images_iterator images_iterator of
        Inl err \<Rightarrow> Inl err
      | Inr (images_iterator', found) \<Rightarrow>
          sf_outer images_list images_ts target_step desired_timesteps images_iterator'
            (case found of None \<Rightarrow> desired_frames | Some frame \<Rightarrow> desired_frames @ [frame]))"

definition SelectFrames :: "'a list \<Rightarrow> real list \<Rightarrow> real list \<Rightarrow> real \<Rightarrow> py_error + 'a list" where
  "SelectFrames images_list images_ts desired_timesteps target_step =
     sf_outer images_list images_ts target_step desired_timesteps 0 []"

section \<open>updateContactStatus\<close>

text \<open>Indexing a Python sequence with an integer.\<close>

definition py_get :: "'a list \<Rightarrow> int \<Rightarrow> py_error + 'a" where
  "py_get xs i =
     (case np_index (length xs) i of None \<Rightarrow> Inl IndexError | Some k \<Rightarrow> Inr (xs ! k))"

text \<open>The rotation matrix of the source, by rows.\<close>

definition rot_mat :: "real \<Rightarrow> (real \<times> real) \<times> (real \<times> real)" where
  "rot_mat rotation_angle =
     ((cos (rotation_angle * pi / 180), sin (rotation_angle * pi / 180)),
      (- sin (rotation_angle * pi / 180), cos (rotation_angle * pi / 180)))"

text \<open>
  \<^verbatim>\<open>np.matmul(rot_mat, v)\<close> for the slice \<^verbatim>\<open>v = current_rotation[0:2]\<close>: a
  slice that does not have two components does not fit the matrix.
\<close>

definition matmul2 :: "(real \<times> real) \<times> (real \<times> real) \<Rightarrow> real list \<Rightarrow> py_error + real \<times> real" where
  "matmul2 m v =
     (case v of
        [a, b] \<Rightarrow> Inr (fst (fst m) * a + snd (fst m) * b, fst (snd m) * a + snd (snd m) * b)
      | _ \<Rightarrow> Inl ValueError)"

text \<open>
  The search \<^verbatim>\<open>for rot in list_of_rotations\<close> for the nearest reference vector,
  with the running \<^verbatim>\<open>i\<close>, \<^verbatim>\<open>best_rot_diff\<close> and \<^verbatim>\<open>best_rot_idx\<close>.
\<close>

fun best_rot :: "real \<times> real \<Rightarrow> real list list \<Rightarrow> int \<Rightarrow> real \<Rightarrow> int \<Rightarrow> py_error + int" where
  "best_rot r [] i best_rot_diff best_rot_idx = Inr best_rot_idx"
| "best_rot r (rot # rots) i best_rot_diff best_rot_idx =
     (if length rot < 2 then Inl IndexError
      else if best_rot_diff > sqrt ((rot ! 0 - fst r)\<^sup>2 + (rot ! 1 - snd r)\<^sup>2)
      then best_rot r rots (i + 1) (sqrt ((rot ! 0 - fst r)\<^sup>2 + (rot ! 1 - snd r)\<^sup>2)) i
      else best_rot r rots (i + 1) best_rot_diff best_rot_idx)"

definition rotate_status :: "real list list \<Rightarrow> real \<Rightarrow> int \<Rightarrow> py_error + int" where
  "rotate_status list_of_rotations rotation_angle contact_status =
     (if contact_status = 0 then Inr 0
      else (case py_get list_of_rotations (contact_status - 1) of
              Inl err \<Rightarrow> Inl err
            | Inr current_rotation \<Rightarrow>
                (case matmul2 (rot_mat rotation_angle) (take 2 current_rotation) of
                   Inl err \<Rightarrow> Inl err
                 | Inr rotated_contact_status \<Rightarrow>
                     best_rot rotated_contact_status list_of_rotations 1 100 1)))"

fun ucs_loop :: "real list list \<Rightarrow> real \<Rightarrow> int list \<Rightarrow> int list \<Rightarrow> py_error + int list" where
  "ucs_loop list_of_rotations rotation_angle [] list_of_rotated_contact_status =
     Inr list_of_rotated_contact_status"
| "ucs_loop list_of_rotations rotation_angle (contact_status # rest)
       list_of_rotated_contact_status =
     (case rotate_status list_of_rotations rotation_angle contact_status of
        Inl err \<Rightarrow> Inl err
      | Inr s \<Rightarrow>
          ucs_loop list_of_rotations rotation_angle rest (list_of_rotated_contact_status @ [s]))"

definition updateContactStatus :: "int list \<Rightarrow> real list list \<Rightarrow> real \<Rightarrow> py_error + int list" where
  "updateContactStatus list_of_current_contact_status list_of_rotations rotation_angle =
     ucs_loop list_of_rotations rotation_angle list_of_current_contact_status []"

section \<open>Quantities the properties speak about\<close>

text \<open>The sum of one channel over the whole frame, and the events a list of frames counts.\<close>

definition channel_sum :: "nat \<Rightarrow> nat \<Rightarrow> nat \<Rightarrow> image \<Rightarrow> real" where
  "channel_sum h w k img = (\<Sum>y < h. \<Sum>x < w. img (y, x, k))"

definition counted_events :: "nat \<Rightarrow> nat \<Rightarrow> image list \<Rightarrow> real" where
  "counted_events h w frames =
     sum_list (map (\<lambda>f. channel_sum h w 0 f + channel_sum h w 1 f) frames)"

text \<open>The events one frame counts: its channel 0 and its channel 1, summed.\<close>

definition cs01 :: "nat \<Rightarrow> nat \<Rightarrow> image \<Rightarrow> real" where
  "cs01 h w img = channel_sum h w 0 img + channel_sum h w 1 img"

text \<open>The value of one entry in every returned frame, beside the returned remainder.\<close>

definition pixel_values ::
  "nat \<times> nat \<times> nat \<Rightarrow> py_error + image list \<times> event list
     \<Rightarrow> py_error + real list \<times> event list" where
  "pixel_values p r =
     (case r of
        Inl err \<Rightarrow> Inl err
      | Inr (frames, rest) \<Rightarrow> Inr (map (\<lambda>f. f p) frames, rest))"

text \<open>
  The runs of events that the timesteps of a grid add to their frames, one run for each
  emitted frame. A timestep reads, from its first unread event on, the events up to its
  grid timestamp; when an event beyond the timestamp follows, the events read are the
  run of its frame, and the next timestep starts at that event or at the event after
  it: both are admitted. When the events run out before an event beyond the timestamp,
  that timestep and the later ones have no frame.
\<close>

fun timestep_runs :: "real list \<Rightarrow> event list \<Rightarrow> event list list \<Rightarrow> bool" where
  "timestep_runs [] es runs = (runs = [])"
| "timestep_runs (ts # g) es runs =
     (case dropWhile (\<lambda>e. ev_ts e \<le> ts) es of
        [] \<Rightarrow> runs = []
      | b # rest \<Rightarrow>
          (case runs of
             [] \<Rightarrow> False
           | run # runs' \<Rightarrow>
               run = takeWhile (\<lambda>e. ev_ts e \<le> ts) es
               \<and> (timestep_runs g (b # rest) runs' \<or> timestep_runs g rest runs')))"

text \<open>
  Positive events minus non-positive events of a list at one pixel.
\<close>

definition signed_count :: "nat \<Rightarrow> nat \<Rightarrow> nat \<times> nat \<Rightarrow> event list \<Rightarrow> real" where
  "signed_count h w p es =
     real (length (filter (\<lambda>e. pixel_of h w e = Some p \<and> ev_pol e > 0) es))
     - real (length (filter (\<lambda>e. pixel_of h w e = Some p \<and> \<not> ev_pol e > 0) es))"

text \<open>A rotated label against its input label, for a table of \<open>n\<close> vectors.\<close>

definition status_ok :: "nat \<Rightarrow> int \<Rightarrow> int \<Rightarrow> bool" where
  "status_ok n l s = ((s = 0) = (l = 0) \<and> (s = 0 \<or> (1 \<le> s \<and> s \<le> int n)))"

section \<open>Evaluation\<close>

lemmas eval_defs = img_add_def img_set_def pixel_of_def np_index_def py_int_def
  np_zeros3_def np_zeros2_def

section \<open>ConcatenateEvents: what the frames count\<close>

text \<open>
  C1 (conservation). The claim: the channel-0 and channel-1 counts of all returned
  frames plus the number of events in the returned remainder equal the number of input
  events. A frame is appended only when an event beyond the grid timestamp is read;
  when the events run out first, the events added to the frame under construction are
  consumed, the frame is never appended, and the remainder is empty. One event with
  timestamp 0.5 and the grid 1, 2 give no frame and an empty remainder: 0 + 0 is not 1.
\<close>

theorem ConcatenateEvents_conservation_counterexample:
  "ConcatenateEvents (\<lambda>k p. 0) [Event 0 0 0.5 1] [1, 2] 1 1 = Inr ([], [])
   \<and> counted_events 1 1 [] + real (length ([] :: event list))
       \<noteq> real (length [Event 0 0 0.5 1])"
  by (simp add: ConcatenateEvents_def ce_inner.simps ce_accumulate_def eval_defs
      counted_events_def)

lemma channel_sum_zeros: "channel_sum h w k np_zeros3 = 0"
  by (simp add: channel_sum_def np_zeros3_def)

lemma channel_sum_upd:
  assumes "y < h" "x < w"
  shows "channel_sum h w k (img((y, x, ch) := img (y, x, ch) + v))
           = channel_sum h w k img + (if k = ch then v else 0)"
proof (cases "k = ch")
  case False
  then show ?thesis by (simp add: channel_sum_def)
next
  case True
  have "channel_sum h w k (img((y, x, ch) := img (y, x, ch) + v))
          = (\<Sum>y' < h. \<Sum>x' < w. img (y', x', k) + (if y' = y \<and> x' = x then v else 0))"
    unfolding channel_sum_def using True
    by (intro sum.cong refl) simp
  also have "\<dots> = (\<Sum>y' < h. (\<Sum>x' < w. img (y', x', k)) + (if y' = y then v else 0))"
  proof (intro sum.cong refl)
    fix y' assume "y' \<in> {..<h}"
    have "(\<Sum>x' < w. img (y', x', k) + (if y' = y \<and> x' = x then v else 0))
            = (\<Sum>x' < w. img (y', x', k)) + (\<Sum>x' < w. if y' = y \<and> x' = x then v else 0)"
      by (rule sum.distrib)
    moreover have "(\<Sum>x' < w. if y' = y \<and> x' = x then v else 0) = (if y' = y then v else 0)"
      using assms(2) by (cases "y' = y") (simp_all add: sum.delta)
    ultimately show "(\<Sum>x' < w. img (y', x', k) + (if y' = y \<and> x' = x then v else 0))
            = (\<Sum>x' < w. img (y', x', k)) + (if y' = y then v else 0)"
      by simp
  qed
  also have "\<dots> = (\<Sum>y' < h. \<Sum>x' < w. img (y', x', k)) + (\<Sum>y' < h. if y' = y then v else 0)"
    by (rule sum.distrib)
  also have "(\<Sum>y' < h. if y' = y then v else 0) = v"
    using assms(1) by (simp add: sum.delta)
  finally show ?thesis
    using True by (simp add: channel_sum_def)
qed

lemma np_index_lt: "np_index n i = Some k \<Longrightarrow> k < n"
  by (auto simp: np_index_def split: if_splits)

lemma pixel_of_lt: "pixel_of h w e = Some (y, x) \<Longrightarrow> y < h \<and> x < w"
  by (auto simp: pixel_of_def split: option.splits dest: np_index_lt)

lemma ce_accumulate_cs01:
  assumes "ce_accumulate h w ts st e s = Inr s'"
  shows "cs01 h w (fst s') = cs01 h w (fst s) + 1"
proof -
  obtain img cnt tsm where s: "s = (img, cnt, tsm)" by (cases s) auto
  from assms s obtain y x where
    px: "pixel_of h w e = Some (y, x)"
    and img': "fst s' = img((y, x, if ev_pol e > 0 then 0 else 1)
                     := img (y, x, if ev_pol e > 0 then 0 else 1) + 1)"
    by (auto simp: ce_accumulate_def img_add_def np_index_def
        split: option.splits sum.splits if_splits)
  from pixel_of_lt [OF px] have "y < h" "x < w" by simp_all
  then show ?thesis
    by (simp add: cs01_def img' s channel_sum_upd)
qed

lemma ce_inner_cs01:
  "ce_inner h w ts st evs i s = Inr (b, j, s') \<Longrightarrow> i \<le> length evs \<Longrightarrow>
     i \<le> j \<and> j \<le> length evs
     \<and> cs01 h w (fst s') + (if b then 1 else 0) = cs01 h w (fst s) + real (j - i)"
proof (induction h w ts st evs i s rule: ce_inner.induct)
  case (1 h w ts st evs i s)
  note step = ce_inner.simps [of h w ts st evs i s]
  show ?case
  proof (cases "i < length evs")
    case False
    with "1.prems" step show ?thesis by simp
  next
    case inb: True
    show ?thesis
    proof (cases "ev_ts (evs ! i) > ts")
      case True
      with inb "1.prems" step show ?thesis by auto
    next
      case False
      with inb "1.prems" step obtain s1 where
        acc: "ce_accumulate h w ts st (evs ! i) s = Inr s1"
        and rec: "ce_inner h w ts st evs (i + 1) s1 = Inr (b, j, s')"
        by (auto split: sum.splits)
      from inb have le: "i + 1 \<le> length evs" by simp
      note IH = "1.IH" [OF inb False acc rec le]
      from IH have "real (j - i) = real (j - (i + 1)) + 1"
        by (simp add: of_nat_diff)
      with IH ce_accumulate_cs01 [OF acc] show ?thesis
        by simp
    qed
  qed
qed

lemma channel_sum_set_channel:
  "k \<noteq> k' \<Longrightarrow> channel_sum h w k (set_channel h w k' img m) = channel_sum h w k img"
  by (simp add: channel_sum_def set_channel_def)

lemma counted_events_snoc:
  "counted_events h w (fs @ [f]) = counted_events h w fs + cs01 h w f"
  by (simp add: counted_events_def cs01_def)

lemma ce_outer_counted:
  "ce_outer fresh h w st evs g it fs = Inr (fs', it') \<Longrightarrow> it \<le> length evs \<Longrightarrow>
     it' \<le> length evs
     \<and> counted_events h w fs' + real (length fs') + real it
          \<le> counted_events h w fs + real (length fs) + real it'"
proof (induction g arbitrary: it fs)
  case Nil
  then show ?case by simp
next
  case (Cons ts g)
  from Cons.prems(1) obtain b j img cnt tsm where
    inner: "ce_inner h w ts st evs it (np_zeros3, np_zeros2, np_zeros2) = Inr (b, j, img, cnt, tsm)"
    and outer: "ce_outer fresh h w st evs g j
                  (if b then fs @ [set_channel h w 2 img (np_divide_where tsm cnt (fresh (length fs)))]
                   else fs) = Inr (fs', it')"
    by (auto split: sum.splits if_splits)
  from ce_inner_cs01 [OF inner Cons.prems(2)] have
    ij: "it \<le> j" "j \<le> length evs"
    and cs: "cs01 h w img + (if b then 1 else 0) = real (j - it)"
    by (simp_all add: cs01_def channel_sum_zeros)
  from ij have rj: "real (j - it) = real j - real it"
    by (simp add: of_nat_diff)
  note IH = Cons.IH [OF outer ij(2)]
  show ?case
  proof (cases b)
    case True
    have "cs01 h w (set_channel h w 2 img (np_divide_where tsm cnt (fresh (length fs))))
            = cs01 h w img"
      by (simp add: cs01_def channel_sum_set_channel)
    with IH True cs rj show ?thesis
      by (simp add: counted_events_snoc)
  next
    case False
    have "0 \<le> cs01 h w img" using cs False by simp
    with IH False cs rj show ?thesis
      by simp
  qed
qed

text \<open>
  C1 as amended: whenever \<^verbatim>\<open>ConcatenateEvents\<close> returns, the channel-0 and
  channel-1 counts of all returned frames plus the number of events in the returned
  remainder are at most the number of input events.
\<close>

theorem ConcatenateEvents_counts_bounded:
  assumes "ConcatenateEvents fresh event_list time_steps im_height im_width = Inr (frames, rest)"
  shows "counted_events im_height im_width frames + real (length rest) \<le> real (length event_list)"
proof -
  from assms obtain st it where
    o: "ce_outer fresh im_height im_width st event_list time_steps 0 [] = Inr (frames, it)"
    and r: "rest = drop it event_list"
    by (auto simp: ConcatenateEvents_def split: sum.splits if_splits)
  from ce_outer_counted [OF o] have
    "it \<le> length event_list"
    "counted_events im_height im_width frames + real (length frames) \<le> real it"
    by (simp_all add: counted_events_def)
  moreover have "real (length rest) = real (length event_list) - real it"
    using r \<open>it \<le> length event_list\<close> by (simp add: of_nat_diff)
  ultimately show ?thesis by simp
qed

theorem ConcatenateEvents_counts_bounded_witness:
  "ConcatenateEvents (\<lambda>k p. 0) [Event 0 0 0.5 1, Event 0 0 5 1, Event 0 0 6 1] [1, 2] 1 1
     = Inr ([set_channel 1 1 2 ((\<lambda>_. 0)((0, 0, 0) := 1))
               (np_divide_where ((\<lambda>_. 0)((0, 0) := 1 / 2)) ((\<lambda>_. 0)((0, 0) := 1)) (\<lambda>p. 0)),
             set_channel 1 1 2 (\<lambda>_. 0) (np_divide_where (\<lambda>_. 0) (\<lambda>_. 0) (\<lambda>p. 0))], [])
   \<and> counted_events 1 1
         [set_channel 1 1 2 ((\<lambda>_. 0)((0, 0, 0) := 1))
            (np_divide_where ((\<lambda>_. 0)((0, 0) := 1 / 2)) ((\<lambda>_. 0)((0, 0) := 1)) (\<lambda>p. 0)),
          set_channel 1 1 2 (\<lambda>_. 0) (np_divide_where (\<lambda>_. 0) (\<lambda>_. 0) (\<lambda>p. 0))]
       + real (length ([] :: event list))
       \<le> real (length [Event 0 0 0.5 1, Event 0 0 5 1, Event 0 0 6 1])"
proof -
  have h: "ConcatenateEvents (\<lambda>k p. 0) [Event 0 0 0.5 1, Event 0 0 5 1, Event 0 0 6 1] [1, 2] 1 1
     = Inr ([set_channel 1 1 2 ((\<lambda>_. 0)((0, 0, 0) := 1))
               (np_divide_where ((\<lambda>_. 0)((0, 0) := 1 / 2)) ((\<lambda>_. 0)((0, 0) := 1)) (\<lambda>p. 0)),
             set_channel 1 1 2 (\<lambda>_. 0) (np_divide_where (\<lambda>_. 0) (\<lambda>_. 0) (\<lambda>p. 0))], [])"
    by (simp add: ConcatenateEvents_def ce_inner.simps ce_accumulate_def eval_defs)
  from h ConcatenateEvents_counts_bounded [OF h] show ?thesis
    by (rule conjI)
qed

text \<open>
  \<^verbatim>\<open>ConcatenateEvents\<close> returns whenever there is an event, the grid has two
  entries or more and every event indexes a pixel of the frame.
\<close>

lemma ce_accumulate_total:
  assumes "pixel_of h w e \<noteq> None"
  shows "\<exists>s'. ce_accumulate h w ts st e s = Inr s'"
proof -
  obtain img cnt tsm where "s = (img, cnt, tsm)" by (cases s) auto
  with assms show ?thesis
    by (auto simp: ce_accumulate_def img_add_def np_index_def split: option.splits)
qed

lemma ce_inner_total:
  "\<forall>e \<in> set evs. pixel_of h w e \<noteq> None \<Longrightarrow> \<exists>r. ce_inner h w ts st evs i s = Inr r"
proof (induction h w ts st evs i s rule: ce_inner.induct)
  case (1 h w ts st evs i s)
  note step = ce_inner.simps [of h w ts st evs i s]
  show ?case
  proof (cases "i < length evs \<and> \<not> ev_ts (evs ! i) > ts")
    case False
    then have "ce_inner h w ts st evs i s = Inr (False, i, s)
        \<or> ce_inner h w ts st evs i s = Inr (True, i + 1, s)"
      by (subst (1 2) step) auto
    then show ?thesis by blast
  next
    case True
    then have "pixel_of h w (evs ! i) \<noteq> None"
      using "1.prems" by simp
    from ce_accumulate_total [OF this] obtain s1 where
      acc: "ce_accumulate h w ts st (evs ! i) s = Inr s1" by blast
    from True "1.IH" [OF _ _ acc "1.prems"] obtain r where
      "ce_inner h w ts st evs (i + 1) s1 = Inr r" by blast
    with True acc have "ce_inner h w ts st evs i s = Inr r"
      by (subst step) simp
    then show ?thesis by blast
  qed
qed

lemma ce_outer_total:
  assumes "evs \<noteq> []" and "\<forall>e \<in> set evs. pixel_of h w e \<noteq> None"
  shows "\<exists>r. ce_outer fresh h w st evs g it fs = Inr r"
proof (induction g arbitrary: it fs)
  case Nil
  then show ?case by simp
next
  case (Cons ts g)
  from ce_inner_total [OF assms(2)] obtain b j img cnt tsm where
    "ce_inner h w ts st evs it (np_zeros3, np_zeros2, np_zeros2) = Inr (b, j, img, cnt, tsm)"
    by (metis prod_cases5)
  with assms(1) Cons.IH show ?case
    by simp
qed

lemma ConcatenateEvents_total:
  assumes "event_list \<noteq> []" and "2 \<le> length time_steps"
    and "\<forall>e \<in> set event_list. pixel_of im_height im_width e \<noteq> None"
  shows "\<exists>frames rest.
           ConcatenateEvents fresh event_list time_steps im_height im_width = Inr (frames, rest)"
proof -
  from ce_outer_total [OF assms(1,3)] obtain frames it where
    "ce_outer fresh im_height im_width
       (time_steps ! (length time_steps - 1) - time_steps ! (length time_steps - 2))
       event_list time_steps 0 [] = Inr (frames, it)"
    by (metis surj_pair)
  with assms(2) show ?thesis
    by (simp add: ConcatenateEvents_def)
qed

section \<open>ConcatenateEvents: the event beyond the timestamp is lost\<close>

text \<open>
  The source sets \<^verbatim>\<open>event_iterator = i + 1\<close> before it tests
  \<^verbatim>\<open>event[2] > ts\<close>, so the event that closes a frame is counted in no frame and
  is not in the remainder either. On two events at pixel (0, 0) with timestamps 0.5
  and 5, and the grid 1, 2, the frames count one event and the remainder is empty.
\<close>

lemma ConcatenateEvents_closing_event_uncounted:
  "\<exists>frames rest.
     ConcatenateEvents fresh [Event 0 0 0.5 1, Event 0 0 5 1] [1, 2] 1 1 = Inr (frames, rest)
     \<and> counted_events 1 1 frames + real (length rest) = 1
     \<and> length [Event 0 0 0.5 1, Event 0 0 5 1] = 2"
  by (simp add: ConcatenateEvents_def ce_inner.simps ce_accumulate_def eval_defs
      counted_events_def channel_sum_def set_channel_def)

text \<open>
  C2 (cursor stop rule). The claim: the cursor does not move past the event that
  exceeds the grid timestamp, and the returned remainder begins with that event. On
  four events with timestamps 0.5, 5, 6, 7 and the grid 1, 2 the event at 5 closes the
  first frame and the event at 6 closes the second; the remainder is the event at 7
  alone, so both closing events were passed.
\<close>

theorem ConcatenateEvents_skips_boundary_event:
  "\<exists>frames.
     ConcatenateEvents fresh
       [Event 0 0 0.5 1, Event 0 0 5 1, Event 0 0 6 1, Event 0 0 7 1] [1, 2] 1 1
       = Inr (frames, [Event 0 0 7 1])
     \<and> length frames = 2"
  by (simp add: ConcatenateEvents_def ce_inner.simps ce_accumulate_def eval_defs)

text \<open>
  C3 (zero-division safety). The claim: a pixel whose counter is zero has exactly 0 in
  channel 2, never an unspecified value. The source zeroes channel 2 and then assigns
  the result of \<^verbatim>\<open>np.divide(..., where=counter_matrix != 0)\<close> to the whole
  channel; that result is a fresh array which numpy leaves unwritten where the counter
  is zero. On a frame of one row and two columns with one event at column 0, the pixel
  at column 1 has no event (channels 0 and 1 are 0 there) and its channel 2 is whatever
  the fresh allocation held.
\<close>

theorem ConcatenateEvents_zero_counter_unwritten:
  "pixel_values (0, 1, 0)
     (ConcatenateEvents fresh [Event 0 0 0.5 1, Event 0 0 5 1] [1, 2] 1 2) = Inr ([0], [])
   \<and> pixel_values (0, 1, 1)
     (ConcatenateEvents fresh [Event 0 0 0.5 1, Event 0 0 5 1] [1, 2] 1 2) = Inr ([0], [])
   \<and> pixel_values (0, 1, 2)
     (ConcatenateEvents fresh [Event 0 0 0.5 1, Event 0 0 5 1] [1, 2] 1 2)
       = Inr ([fresh 0 (0, 1)], [])"
  by (simp add: ConcatenateEvents_def ce_inner.simps ce_accumulate_def eval_defs
      pixel_values_def set_channel_def np_divide_where_def)

lemma ConcatenateEvents_zero_counter_seven:
  "pixel_values (0, 1, 2)
     (ConcatenateEvents (\<lambda>k p. 7) [Event 0 0 0.5 1, Event 0 0 5 1] [1, 2] 1 2)
       = Inr ([7], [])"
  by (simp add: ConcatenateEvents_def ce_inner.simps ce_accumulate_def eval_defs
      pixel_values_def set_channel_def np_divide_where_def)

section \<open>Empty inputs\<close>

text \<open>
  C4 (empty input). The claim: with no events \<^verbatim>\<open>EventBinning\<close> returns one
  zero frame per grid entry without an error. The progress line of the source divides
  by \<^verbatim>\<open>len(event_list)\<close> at the start of every grid step, so with no events
  and at least one grid entry the call raises \<open>ZeroDivisionError\<close>.
\<close>

theorem EventBinning_empty_events_raises:
  "EventBinning [] (ts # time_steps) im_height im_width n_bin bin_step_size
     = Inl ZeroDivisionError"
  by (simp add: EventBinning_def)

text \<open>The other parts of C4 hold on the code.\<close>

lemma EventBinning_empty_grid:
  "EventBinning event_list [] im_height im_width n_bin bin_step_size = Inr []"
  by (simp add: EventBinning_def)

lemma generateFrames_empty_grid:
  "generateFrames event_list [] im_height im_width im_channel time_window
     = Inr ([], event_list)"
  by (simp add: generateFrames_def)

lemma ConcatenateEvents_short_grid:
  "length time_steps < 2 \<Longrightarrow>
     ConcatenateEvents fresh event_list time_steps im_height im_width = Inl IndexError"
  by (simp add: ConcatenateEvents_def)

section \<open>SelectFrames\<close>

text \<open>
  C5 (tolerance example). The claim: for frames at 0.0, 0.1, 0.25, targets 0.0, 0.2 and
  tolerance 0.06 the selection is the frame at 0.0 alone. It is not: the frame at 0.25
  is within 0.05 of the target 0.2, which is below the tolerance.
\<close>

theorem SelectFrames_tolerance_counterexample:
  "SelectFrames [''f0'', ''f1'', ''f2''] [0.0, 0.1, 0.25] [0.0, 0.2] 0.06 \<noteq> Inr [''f0'']"
  by (simp add: SelectFrames_def sf_inner.simps)

text \<open>
  C5 as amended: for frames at 0.0, 0.1, 0.25, targets 0.0, 0.2 and tolerance 0.06 the
  selection is the frame at 0.0 followed by the frame at 0.25.
\<close>

theorem SelectFrames_tolerance_example:
  "SelectFrames [f0, f1, f2] [0.0, 0.1, 0.25] [0.0, 0.2] 0.06 = Inr [f0, f2]"
  by (simp add: SelectFrames_def sf_inner.simps)

section \<open>generateFrames: the value of every pixel\<close>

text \<open>
  C6 (per-pixel value). The claim: with no time window every emitted frame holds, at
  every pixel alike, the number of positive events minus the number of non-positive
  events that the timestep consumed at that pixel. The source writes 0 to
  \<^verbatim>\<open>event_image[201, 154, 0]\<close> before it appends a frame, so at row 201 and
  column 154 the frame holds 0 whatever was counted there: one positive event at that
  pixel gives 0, not 1.
\<close>

theorem generateFrames_hot_pixel_counterexample:
  "pixel_values (201, 154, 0)
     (generateFrames [Event 154 201 0.5 1, Event 0 0 2 1] [1] 260 346 1 None) = Inr ([0], [])
   \<and> timestep_runs [1] [Event 154 201 0.5 1, Event 0 0 2 1] [[Event 154 201 0.5 1]]
   \<and> signed_count 260 346 (201, 154) [Event 154 201 0.5 1] = 1"
  by (simp add: generateFrames_def gf_inner.simps eval_defs pixel_values_def signed_count_def)

lemma signed_count_Nil: "signed_count h w p [] = 0"
  by (simp add: signed_count_def)

lemma signed_count_Cons:
  "signed_count h w p (e # es) =
     (if pixel_of h w e = Some p then (if ev_pol e > 0 then 1 else - 1) else 0)
     + signed_count h w p es"
  by (simp add: signed_count_def)

lemma img_add_0:
  assumes "img_add h w c img e 0 v = Inr img'"
  shows "img' (y, x, 0) = img (y, x, 0) + (if pixel_of h w e = Some (y, x) then v else 0)"
  using assms
  by (auto simp: img_add_def np_index_def split: option.splits if_splits prod.splits)

lemma img_set_hot:
  assumes "img_set h w c img 201 154 0 0 = Inr img'"
  shows "img' (y, x, 0) = (if (y, x) = (201, 154) then 0 else img (y, x, 0))"
  using assms by (auto simp: img_set_def split: if_splits)

lemma gf_inner_None:
  "gf_inner h w c ts tw evs i img = Inr (b, j, img') \<Longrightarrow> tw = None \<Longrightarrow> i \<le> length evs \<Longrightarrow>
   (if b
    then (\<exists>seg e rest. drop i evs = seg @ e # rest \<and> (\<forall>a \<in> set seg. ev_ts a \<le> ts)
            \<and> ts < ev_ts e \<and> j = i + length seg + 1
            \<and> (\<forall>y x. img' (y, x, 0) =
                  (if (y, x) = (201, 154) then 0
                   else img (y, x, 0) + signed_count h w (y, x) seg)))
    else (\<forall>a \<in> set (drop i evs). ev_ts a \<le> ts) \<and> j = length evs)"
proof (induction h w c ts tw evs i img rule: gf_inner.induct)
  case (1 h w c ts tw evs i img)
  note step = gf_inner.simps [of h w c ts tw evs i img]
  show ?case
  proof (cases "i < length evs")
    case False
    with "1.prems" step show ?thesis by simp
  next
    case inb: True
    then have dr: "drop i evs = evs ! i # drop (Suc i) evs"
      by (simp add: Cons_nth_drop_Suc)
    show ?thesis
    proof (cases "ev_ts (evs ! i) > ts")
      case True
      with inb "1.prems" step obtain img0 where
        hot: "img_set h w c img 201 154 0 0 = Inr img0" and res: "b" "j = i + 1" "img' = img0"
        by (auto split: sum.splits)
      have "\<forall>y x. img' (y, x, 0) =
                  (if (y, x) = (201, 154) then 0
                   else img (y, x, 0) + signed_count h w (y, x) [])"
        using img_set_hot [OF hot] res by (simp add: signed_count_Nil)
      with True res dr have "\<exists>seg e rest. drop i evs = seg @ e # rest
            \<and> (\<forall>a \<in> set seg. ev_ts a \<le> ts)
            \<and> ts < ev_ts e \<and> j = i + length seg + 1
            \<and> (\<forall>y x. img' (y, x, 0) =
                  (if (y, x) = (201, 154) then 0
                   else img (y, x, 0) + signed_count h w (y, x) seg))"
        by (intro exI [of _ "[]"] exI [of _ "evs ! i"] exI [of _ "drop (Suc i) evs"]) simp
      with res show ?thesis by simp
    next
      case False
      with inb "1.prems" step obtain img1 where
        add: "img_add h w c img (evs ! i) 0 (if ev_pol (evs ! i) > 0 then 1 else - 1) = Inr img1"
        and rec: "gf_inner h w c ts tw evs (i + 1) img1 = Inr (b, j, img')"
        by (auto split: sum.splits)
      from inb have le: "i + 1 \<le> length evs" by simp
      have tw: "case tw of None \<Rightarrow> True | Some tw \<Rightarrow> ts - tw < ev_ts (evs ! i)"
        using "1.prems" by simp
      note IH = "1.IH"(1) [OF inb tw False add rec "1.prems"(2) le]
      show ?thesis
      proof (cases b)
        case True
        with IH obtain seg e rest where
          s: "drop (i + 1) evs = seg @ e # rest" "\<forall>a \<in> set seg. ev_ts a \<le> ts"
             "ts < ev_ts e" "j = i + 1 + length seg + 1"
          and px: "\<forall>y x. img' (y, x, 0) =
                  (if (y, x) = (201, 154) then 0
                   else img1 (y, x, 0) + signed_count h w (y, x) seg)"
          by auto
        have "drop i evs = (evs ! i # seg) @ e # rest"
          using dr s(1) by simp
        moreover have "\<forall>a \<in> set (evs ! i # seg). ev_ts a \<le> ts"
          using s(2) False by simp
        moreover have "j = i + length (evs ! i # seg) + 1"
          using s(4) by simp
        moreover have "\<forall>y x. img' (y, x, 0) =
                  (if (y, x) = (201, 154) then 0
                   else img (y, x, 0) + signed_count h w (y, x) (evs ! i # seg))"
          using px img_add_0 [OF add] by (simp add: signed_count_Cons)
        ultimately show ?thesis
          using True s(3) by (simp only: if_True) blast
      next
        case nb: False
        with IH False dr show ?thesis by simp
      qed
    qed
  qed
qed


lemma timestep_runs_Nil: "timestep_runs g [] runs \<Longrightarrow> runs = []"
  by (cases g) simp_all

lemma gf_outer_runs:
  "gf_outer h w c None evs g it fs = Inr (fs', it') \<Longrightarrow> it \<le> length evs \<Longrightarrow>
   \<exists>new runs. fs' = fs @ new \<and> it' \<le> length evs
      \<and> timestep_runs g (drop it evs) runs
      \<and> length runs = length new
      \<and> (\<forall>k < length new. \<forall>y x. (new ! k) (y, x, 0) =
             (if (y, x) = (201, 154) then 0
              else signed_count h w (y, x) (runs ! k)))"
proof (induction g arbitrary: it fs)
  case Nil
  then show ?case by simp
next
  case (Cons ts g)
  from Cons.prems(1) obtain b j img where
    inner: "gf_inner h w c ts None evs it np_zeros3 = Inr (b, j, img)"
    and outer: "gf_outer h w c None evs g j (if b then fs @ [img] else fs) = Inr (fs', it')"
    by (auto split: sum.splits)
  note ch = gf_inner_None [OF inner refl Cons.prems(2)]
  show ?case
  proof (cases b)
    case True
    with ch obtain seg e rest where
      s: "drop it evs = seg @ e # rest" "\<forall>a \<in> set seg. ev_ts a \<le> ts"
         "ts < ev_ts e" "j = it + length seg + 1"
      and px: "\<forall>y x. img (y, x, 0) =
                  (if (y, x) = (201, 154) then 0
                   else np_zeros3 (y, x, 0) + signed_count h w (y, x) seg)"
      by auto
    have tk: "takeWhile (\<lambda>e. ev_ts e \<le> ts) (drop it evs) = seg"
      using s(1-3) by (simp add: takeWhile_append2)
    have dw: "dropWhile (\<lambda>e. ev_ts e \<le> ts) (drop it evs) = e # rest"
      using s(1-3) by (simp add: dropWhile_append2)
    have "drop j evs = drop (length seg + 1) (drop it evs)"
      using s(4) by (simp add: add.commute)
    then have dj: "drop j evs = rest"
      using s(1) by simp
    have "length (drop it evs) = length seg + 1 + length rest"
      using s(1) by simp
    then have jle: "j \<le> length evs"
      using s(4) Cons.prems(2) by simp
    from outer True have "gf_outer h w c None evs g j (fs @ [img]) = Inr (fs', it')"
      by simp
    from Cons.IH [OF this jle] obtain new runs where
      n: "fs' = (fs @ [img]) @ new" "it' \<le> length evs"
         "timestep_runs g (drop j evs) runs" "length runs = length new"
         "\<forall>k < length new. \<forall>y x. (new ! k) (y, x, 0) =
             (if (y, x) = (201, 154) then 0
              else signed_count h w (y, x) (runs ! k))"
      by blast
    have runs: "timestep_runs (ts # g) (drop it evs) (seg # runs)"
      using n(3) by (simp only: timestep_runs.simps dw tk dj list.case) simp
    have "\<forall>k < length (img # new). \<forall>y x. ((img # new) ! k) (y, x, 0) =
             (if (y, x) = (201, 154) then 0
              else signed_count h w (y, x) ((seg # runs) ! k))"
    proof (intro allI impI)
      fix k y x
      assume "k < length (img # new)"
      then show "((img # new) ! k) (y, x, 0) =
             (if (y, x) = (201, 154) then 0
              else signed_count h w (y, x) ((seg # runs) ! k))"
        using px n(5) by (cases k) (simp_all add: np_zeros3_def)
    qed
    with n(1,2,4) runs show ?thesis
      by (intro exI [of _ "img # new"] exI [of _ "seg # runs"]) simp
  next
    case False
    with ch have all: "\<forall>a \<in> set (drop it evs). ev_ts a \<le> ts" and j: "j = length evs"
      by auto
    from all have dw: "dropWhile (\<lambda>e. ev_ts e \<le> ts) (drop it evs) = []"
      by simp
    from outer False have "gf_outer h w c None evs g j fs = Inr (fs', it')"
      by simp
    from Cons.IH [OF this] j obtain new runs where
      n: "fs' = fs @ new" "it' \<le> length evs"
         "timestep_runs g (drop j evs) runs" "length runs = length new"
      by auto
    from n(3) j have "runs = []"
      by (simp add: timestep_runs_Nil)
    with n(4) have "new = []" by simp
    moreover have "timestep_runs (ts # g) (drop it evs) []"
      by (simp only: timestep_runs.simps dw list.case)
    ultimately show ?thesis
      using n(1,2) by (intro exI [of _ "[]"]) simp
  qed
qed

text \<open>
  C6 as amended: with no time window, when \<^verbatim>\<open>generateFrames\<close> returns, every
  emitted frame holds 0 at row 201, column 154 and, at every other pixel, the number of
  positive events minus the number of non-positive events at that pixel among the
  events of its timestep: the events up to the grid timestamp that the timestep read
  before the event beyond the timestamp.
\<close>

theorem generateFrames_pixel_values:
  assumes "generateFrames event_list time_steps im_height im_width im_channel None
             = Inr (frames, rest)"
  shows "\<exists>runs. timestep_runs time_steps event_list runs
     \<and> length runs = length frames
     \<and> (\<forall>k < length frames. \<forall>y x.
           (frames ! k) (y, x, 0) =
             (if (y, x) = (201, 154) then 0
              else signed_count im_height im_width (y, x) (runs ! k)))"
proof -
  from assms obtain it where
    "gf_outer im_height im_width im_channel None event_list time_steps 0 [] = Inr (frames, it)"
    by (auto simp: generateFrames_def split: sum.splits)
  from gf_outer_runs [OF this] show ?thesis
    by auto
qed

theorem generateFrames_pixel_values_witness:
  "generateFrames [Event 3 2 0.5 1, Event 154 201 0.75 1, Event 0 0 2 1] [1] 260 346 1 None
     = Inr ([(\<lambda>_. 0)((2, 3, 0) := 1, (201, 154, 0) := 0)], [])
   \<and> (\<exists>runs. timestep_runs [1] [Event 3 2 0.5 1, Event 154 201 0.75 1, Event 0 0 2 1] runs
         \<and> length runs = length [(\<lambda>_. 0)((2, 3, 0) := 1, (201, 154, 0) := 0) :: image]
         \<and> (\<forall>k < length [(\<lambda>_. 0)((2, 3, 0) := 1, (201, 154, 0) := 0) :: image]. \<forall>y x.
               ([(\<lambda>_. 0)((2, 3, 0) := 1, (201, 154, 0) := 0) :: image] ! k) (y, x, 0) =
                 (if (y, x) = (201, 154) then 0
                  else signed_count 260 346 (y, x) (runs ! k))))"
proof -
  have h: "generateFrames [Event 3 2 0.5 1, Event 154 201 0.75 1, Event 0 0 2 1] [1] 260 346 1 None
     = Inr ([(\<lambda>_. 0)((2, 3, 0) := 1, (201, 154, 0) := 0)], [])"
    by (simp add: generateFrames_def gf_inner.simps eval_defs)
  from h generateFrames_pixel_values [OF h] show ?thesis
    by (rule conjI)
qed

text \<open>
  Where an event up to the next grid timestamp closes a frame, the relation admits the
  run that starts at it and the run that starts after it.
\<close>

lemma timestep_runs_both:
  "timestep_runs [1, 2] [Event 0 0 0.5 1, Event 0 0 1.5 1, Event 0 0 2.5 1]
     [[Event 0 0 0.5 1], []]
   \<and> timestep_runs [1, 2] [Event 0 0 0.5 1, Event 0 0 1.5 1, Event 0 0 2.5 1]
     [[Event 0 0 0.5 1], [Event 0 0 1.5 1]]"
  by simp

text \<open>
  \<^verbatim>\<open>generateFrames\<close> returns whenever every event indexes a pixel of the frame
  and the frame has row 201, column 154 and channel 0.
\<close>

lemma gf_inner_total:
  "\<forall>e \<in> set evs. pixel_of h w e \<noteq> None \<Longrightarrow> 201 < h \<Longrightarrow> 154 < w \<Longrightarrow> 0 < c
     \<Longrightarrow> \<exists>r. gf_inner h w c ts tw evs i img = Inr r"
proof (induction h w c ts tw evs i img rule: gf_inner.induct)
  case (1 h w c ts tw evs i img)
  note step = gf_inner.simps [of h w c ts tw evs i img]
  show ?case
  proof (cases "i < length evs")
    case False
    then have "gf_inner h w c ts tw evs i img = Inr (False, i, img)"
      by (subst step) simp
    then show ?thesis by blast
  next
    case inb: True
    then have "pixel_of h w (evs ! i) \<noteq> None"
      using "1.prems" by simp
    then obtain img1 where
      add: "img_add h w c img (evs ! i) 0 (if ev_pol (evs ! i) > 0 then 1 else - 1) = Inr img1"
      using "1.prems"(4) by (auto simp: img_add_def np_index_def split: option.splits)
    show ?thesis
    proof (cases "case tw of None \<Rightarrow> True | Some tw \<Rightarrow> ev_ts (evs ! i) > ts - tw")
      case win: True
      show ?thesis
      proof (cases "ev_ts (evs ! i) > ts")
        case True
        with inb win "1.prems" have
          "gf_inner h w c ts tw evs i img = Inr (True, i + 1, img((201, 154, 0) := 0))"
          by (subst step) (simp add: img_set_def)
        then show ?thesis by blast
      next
        case False
        from "1.IH"(1) [OF inb win False add "1.prems"] obtain r where
          "gf_inner h w c ts tw evs (i + 1) img1 = Inr r" by blast
        with inb win False add have "gf_inner h w c ts tw evs i img = Inr r"
          by (subst step) simp
        then show ?thesis by blast
      qed
    next
      case False
      from "1.IH"(2) [OF inb False "1.prems"] obtain r where
        "gf_inner h w c ts tw evs (i + 1) img = Inr r" by blast
      with inb False have "gf_inner h w c ts tw evs i img = Inr r"
        by (subst step) simp
      then show ?thesis by blast
    qed
  qed
qed

lemma gf_outer_total:
  assumes "\<forall>e \<in> set evs. pixel_of h w e \<noteq> None" "201 < h" "154 < w" "0 < c"
  shows "\<exists>r. gf_outer h w c tw evs g it fs = Inr r"
proof (induction g arbitrary: it fs)
  case Nil
  then show ?case by simp
next
  case (Cons ts g)
  from gf_inner_total [OF assms] obtain b j img where
    "gf_inner h w c ts tw evs it np_zeros3 = Inr (b, j, img)"
    by (metis prod_cases3)
  with Cons.IH show ?case
    by simp
qed

lemma generateFrames_total:
  assumes "\<forall>e \<in> set event_list. pixel_of im_height im_width e \<noteq> None"
    and "201 < im_height" "154 < im_width" "0 < im_channel"
  shows "\<exists>frames rest.
           generateFrames event_list time_steps im_height im_width im_channel time_window
             = Inr (frames, rest)"
proof -
  from gf_outer_total [OF assms] obtain frames it where
    "gf_outer im_height im_width im_channel time_window event_list time_steps 0 []
       = Inr (frames, it)"
    by (metis surj_pair)
  then show ?thesis
    by (simp add: generateFrames_def)
qed

section \<open>generateFrames_temporalROI: how many frames\<close>




text \<open>
  \<^verbatim>\<open>generateFrames_temporalROI\<close> returns whenever every event indexes a pixel
  of the frame and the frame has row 201, column 154 and channel 0.
\<close>

lemma roi_inner_total:
  "\<forall>e \<in> set evs. pixel_of h w e \<noteq> None \<Longrightarrow> 201 < h \<Longrightarrow> 154 < w \<Longrightarrow> 0 < c
     \<Longrightarrow> \<exists>r. roi_inner h w c thr evs i bus img = Inr r"
proof (induction h w c thr evs i bus img rule: roi_inner.induct)
  case (1 h w c thr evs i bus img)
  note step = roi_inner.simps [of h w c thr evs i bus img]
  show ?case
  proof (cases "i < length evs")
    case False
    then have "roi_inner h w c thr evs i bus img = Inr (False, i, bus, img)"
      by (subst step) simp
    then show ?thesis by blast
  next
    case inb: True
    show ?thesis
    proof (cases "bus = thr")
      case True
      with inb "1.prems" have
        "roi_inner h w c thr evs i bus img = Inr (True, i + 1, 0, img((201, 154, 0) := 0))"
        by (subst step) (simp add: img_set_def)
      then show ?thesis by blast
    next
      case False
      from inb have "pixel_of h w (evs ! i) \<noteq> None"
        using "1.prems" by simp
      then obtain img1 where
        add: "img_add h w c img (evs ! i) 0 (if ev_pol (evs ! i) > 0 then 1 else - 1) = Inr img1"
        using "1.prems"(4) by (auto simp: img_add_def np_index_def split: option.splits)
      from "1.IH" [OF inb False add "1.prems"] obtain r where
        "roi_inner h w c thr evs (i + 1) (bus + 1) img1 = Inr r" by blast
      with inb False add have "roi_inner h w c thr evs i bus img = Inr r"
        by (subst step) simp
      then show ?thesis by blast
    qed
  qed
qed

lemma roi_outer_total:
  assumes "\<forall>e \<in> set evs. pixel_of h w e \<noteq> None" "201 < h" "154 < w" "0 < c"
  shows "\<exists>r. roi_outer h w c thr evs g it bus fs = Inr r"
proof (induction g arbitrary: it bus fs)
  case Nil
  then show ?case by simp
next
  case (Cons ts g)
  from roi_inner_total [OF assms] obtain b j bus' img where
    "roi_inner h w c thr evs it bus np_zeros3 = Inr (b, j, bus', img)"
    by (metis prod_cases4)
  with Cons.IH show ?case
    by simp
qed

lemma generateFrames_temporalROI_total:
  assumes "\<forall>e \<in> set event_list. pixel_of im_height im_width e \<noteq> None"
    and "201 < im_height" "154 < im_width" "0 < im_channel"
  shows "\<exists>frames rest.
           generateFrames_temporalROI event_list time_steps im_height im_width im_channel
             = Inr (frames, rest)"
proof -
  from roi_outer_total [OF assms] obtain frames it where
    "roi_outer im_height im_width im_channel event_threshold_classifier event_list time_steps
       0 0 [] = Inr (frames, it)"
    by (metis surj_pair)
  then show ?thesis
    by (simp add: generateFrames_temporalROI_def)
qed





text \<open>With a threshold of 2 the same loop emits a frame from four events.\<close>

lemma roi_outer_emits:
  "\<exists>f. roi_outer 260 346 1 2 [Event 3 2 0 1, Event 3 2 1 1, Event 0 0 2 1, Event 5 5 3 1] [1, 2] 0 0 []
     = Inr ([f], 4) \<and> f (2, 3, 0) = 2"
  by (simp add: roi_inner.simps img_add_def img_set_def pixel_of_def np_index_def py_int_def np_zeros3_def)

section \<open>EventBinning: the trailing bound\<close>

text \<open>
  C8 (trailing boundary). The claim: an event exactly \<open>n_bins * bin_step\<close> before the
  grid timestamp is left out of the frame, and every binned event gets a channel index
  in \<open>[0, n_bins)\<close>. The loop that moves the trailing iterator changes it only when it
  finds an event newer than the bound; when every event before the leading iterator
  is at or before the bound the trailing iterator stays, and the binning loop computes
  channel \<open>n_bins\<close> for the event on the bound and indexes the frame with it. With two
  bins of width 0.5, the grid timestamp 1 and events at 0 and 2, the event at 0 is
  exactly on the bound: the call raises \<open>IndexError\<close> on channel 2.
\<close>

theorem EventBinning_bound_event_raises:
  "EventBinning [Event 0 0 0 1, Event 0 0 2 1] [1] 1 1 2 0.5 = Inl IndexError
   \<and> eb_trailing (1 - real 2 * 0.5) [Event 0 0 0 1, Event 0 0 2 1] 1 0 0 = 0
   \<and> eb_channel 1 0.5 (Event 0 0 0 1) = Inr 2"
  by (simp add: EventBinning_def eb_leading.simps eb_trailing.simps eb_bin.simps
      eb_channel_def eval_defs)

text \<open>
  When a later event inside the window precedes the leading iterator, the trailing
  iterator moves to it and the event on the bound is left out.
\<close>

lemma EventBinning_bound_event_excluded:
  "\<exists>f. EventBinning [Event 0 0 0 1, Event 0 0 0.75 1, Event 0 0 2 1] [1] 1 1 2 0.5 = Inr [f]
     \<and> f (0, 0, 0) = 1 \<and> f (0, 0, 1) = 0"
  by (simp add: EventBinning_def eb_leading.simps eb_trailing.simps eb_bin.simps
      eb_channel_def eval_defs)

section \<open>Resuming from the returned remainder\<close>

text \<open>
  C9 (resumability). The claim: a call on a prefix of the grid followed by a call on the
  rest of the grid, on the events the first call returned, gives the frames and the
  remainder of one call on the whole grid. For \<^verbatim>\<open>ConcatenateEvents\<close> the
  progress line divides by the length of the event list it is given: when the first
  call has consumed every event, the second call is given an empty list and raises
  \<open>ZeroDivisionError\<close>, where the single call returns. Two events with timestamps 0.5
  and 5 and the grid 1, 2, 3, 4 split in the middle show it.
\<close>

theorem ConcatenateEvents_resume_raises:
  "\<exists>f. ConcatenateEvents fresh [Event 0 0 0.5 1, Event 0 0 5 1] [1, 2, 3, 4] 1 1 = Inr ([f], [])
     \<and> ConcatenateEvents fresh [Event 0 0 0.5 1, Event 0 0 5 1] [1, 2] 1 1 = Inr ([f], [])
     \<and> ConcatenateEvents fresh' [] [3, 4] 1 1 = Inl ZeroDivisionError"
  by (simp add: ConcatenateEvents_def ce_inner.simps ce_accumulate_def eval_defs)

lemma gf_inner_shift:
  "gf_inner h w c ts tw evs (i + k) img
     = map_sum id (\<lambda>(b, j, img'). (b, j + k, img')) (gf_inner h w c ts tw (drop k evs) i img)"
proof (induction h w c ts tw es \<equiv> "drop k evs" i img rule: gf_inner.induct)
  case (1 h w c ts tw i img)
  note l = gf_inner.simps [of h w c ts tw evs "i + k" img]
  note r = gf_inner.simps [of h w c ts tw "drop k evs" i img]
  show ?case
  proof (cases "i < length (drop k evs)")
    case False
    then show ?thesis
      by (subst l, subst r) auto
  next
    case True
    then have lt: "i + k < length evs" by auto
    have nth: "drop k evs ! i = evs ! (i + k)"
      using lt by (simp add: add.commute)
    have s: "i + k + 1 = i + 1 + k" by simp
    show ?thesis
      apply (subst l, subst r)
      using True lt "1.hyps"
      apply (simp only: nth s)
      apply (auto split: sum.splits option.splits)
      done
  qed
qed


lemma gf_outer_shift:
  "gf_outer h w c tw evs g (it + k) fs
     = map_sum id (\<lambda>(fs', j). (fs', j + k)) (gf_outer h w c tw (drop k evs) g it fs)"
proof (induction g arbitrary: it fs)
  case Nil
  then show ?case by simp
next
  case (Cons ts g)
  show ?case
  proof (cases "gf_inner h w c ts tw (drop k evs) it np_zeros3")
    case (Inl err)
    then show ?thesis
      by (simp add: gf_inner_shift)
  next
    case (Inr res)
    obtain b j img where res: "res = (b, j, img)"
      by (cases res) auto
    with Inr Cons.IH [of j "if b then fs @ [img] else fs"] show ?thesis
      by (simp add: gf_inner_shift)
  qed
qed

lemma gf_outer_append:
  "gf_outer h w c tw evs (g1 @ g2) it fs
     = (case gf_outer h w c tw evs g1 it fs of
          Inl err \<Rightarrow> Inl err
        | Inr (fs1, it1) \<Rightarrow> gf_outer h w c tw evs g2 it1 fs1)"
  by (induction g1 arbitrary: it fs) (auto split: sum.splits)

lemma gf_outer_frames:
  "gf_outer h w c tw evs g it fs
     = map_sum id (\<lambda>(new, j). (fs @ new, j)) (gf_outer h w c tw evs g it [])"
proof (induction g arbitrary: it fs)
  case Nil
  then show ?case by simp
next
  case (Cons ts g)
  show ?case
  proof (cases "gf_inner h w c ts tw evs it np_zeros3")
    case (Inl err)
    then show ?thesis by simp
  next
    case (Inr res)
    obtain b j img where res: "res = (b, j, img)"
      by (cases res) auto
    show ?thesis
    proof (cases b)
      case True
      have "gf_outer h w c tw evs g j (fs @ [img])
              = map_sum id (\<lambda>(new, j). ((fs @ [img]) @ new, j)) (gf_outer h w c tw evs g j [])"
        by (rule Cons.IH)
      moreover have "gf_outer h w c tw evs g j [img]
              = map_sum id (\<lambda>(new, j). ([img] @ new, j)) (gf_outer h w c tw evs g j [])"
        by (rule Cons.IH)
      ultimately show ?thesis
        using Inr res True by (cases "gf_outer h w c tw evs g j []") auto
    next
      case False
      with Inr res Cons.IH [of j fs] show ?thesis by simp
    qed
  qed
qed

text \<open>
  \<^verbatim>\<open>generateFrames\<close> has no progress line, and there the property holds: a call
  on a prefix of the grid followed by a call on the rest of the grid, on the returned
  events, gives the frames and the remainder of one call on the whole grid; an
  error in the first call is the error of the single call.
\<close>

lemma generateFrames_resume:
  assumes "generateFrames event_list g1 h w c tw = Inr (frames1, rest1)"
  shows "generateFrames event_list (g1 @ g2) h w c tw
           = (case generateFrames rest1 g2 h w c tw of
                Inl err \<Rightarrow> Inl err
              | Inr (frames2, rest2) \<Rightarrow> Inr (frames1 @ frames2, rest2))"
proof -
  from assms obtain it1 where
    o1: "gf_outer h w c tw event_list g1 0 [] = Inr (frames1, it1)"
    and r1: "rest1 = drop it1 event_list"
    by (auto simp: generateFrames_def split: sum.splits)
  have "gf_outer h w c tw event_list (g1 @ g2) 0 [] = gf_outer h w c tw event_list g2 it1 frames1"
    by (simp add: gf_outer_append o1)
  also have "\<dots> = map_sum id (\<lambda>(new, j). (frames1 @ new, j))
                     (gf_outer h w c tw event_list g2 (0 + it1) [])"
    by (subst gf_outer_frames) simp
  also have "\<dots> = map_sum id (\<lambda>(new, j). (frames1 @ new, j))
                     (map_sum id (\<lambda>(fs', j). (fs', j + it1))
                        (gf_outer h w c tw rest1 g2 0 []))"
    by (simp only: gf_outer_shift r1)
  finally show ?thesis
    by (cases "gf_outer h w c tw rest1 g2 0 []")
       (auto simp: generateFrames_def r1 add.commute)
qed

lemma generateFrames_raises_early:
  assumes "generateFrames event_list g1 h w c tw = Inl err"
  shows "generateFrames event_list (g1 @ g2) h w c tw = Inl err"
  using assms by (auto simp: generateFrames_def gf_outer_append split: sum.splits)

section \<open>updateContactStatus: the labels returned\<close>

lemma best_rot_bounds:
  "best_rot r rots i d idx = Inr k \<Longrightarrow> 1 \<le> idx \<Longrightarrow> idx \<le> N \<Longrightarrow> 1 \<le> i
     \<Longrightarrow> i + int (length rots) = N + 1 \<Longrightarrow> 1 \<le> k \<and> k \<le> N"
proof (induction rots arbitrary: i d idx)
  case Nil
  then show ?case by simp
next
  case (Cons rot rots)
  then show ?case
    by (auto split: if_splits)
qed

lemma best_rot_total:
  "\<forall>v \<in> set rots. 2 \<le> length v \<Longrightarrow> \<exists>k. best_rot r rots i d idx = Inr k"
  by (induction rots arbitrary: i d idx) auto

lemma take2_two: "2 \<le> length v \<Longrightarrow> \<exists>a b. take 2 v = [a, b]"
  by (cases v; cases "tl v") auto

lemma rotate_status_ok:
  assumes vec: "\<forall>v \<in> set table. 2 \<le> length v"
    and lab: "l = 0 \<or> (1 \<le> l \<and> l \<le> int (length table))"
  shows "\<exists>s. rotate_status table angle l = Inr s \<and> status_ok (length table) l s"
proof (cases "l = 0")
  case True
  then show ?thesis by (simp add: rotate_status_def status_ok_def)
next
  case False
  with lab have rng: "1 \<le> l" "l \<le> int (length table)" by auto
  then have get: "py_get table (l - 1) = Inr (table ! nat (l - 1))"
    by (simp add: py_get_def np_index_def)
  from rng have "table ! nat (l - 1) \<in> set table" by simp
  with vec have "2 \<le> length (table ! nat (l - 1))" by blast
  then obtain a b where tk: "take 2 (table ! nat (l - 1)) = [a, b]"
    using take2_two by blast
  obtain r where mm: "matmul2 (rot_mat angle) (take 2 (table ! nat (l - 1))) = Inr r"
    by (simp add: matmul2_def tk)
  obtain k where k: "best_rot r table 1 100 1 = Inr k"
    using best_rot_total [OF vec] by blast
  from rng have "1 \<le> int (length table)" by linarith
  with k have "1 \<le> k \<and> k \<le> int (length table)"
    using best_rot_bounds [of r table 1 100 1 k "int (length table)"] by simp
  with False get mm k show ?thesis
    by (simp add: rotate_status_def status_ok_def)
qed

lemma ucs_loop_ok:
  assumes vec: "\<forall>v \<in> set table. 2 \<le> length v"
  shows "\<forall>l \<in> set labels. l = 0 \<or> (1 \<le> l \<and> l \<le> int (length table)) \<Longrightarrow>
     \<exists>outs. ucs_loop table angle labels acc = Inr (acc @ outs)
        \<and> list_all2 (status_ok (length table)) labels outs"
proof (induction labels arbitrary: acc)
  case Nil
  then show ?case by simp
next
  case (Cons l labels)
  from Cons.prems have "l = 0 \<or> (1 \<le> l \<and> l \<le> int (length table))"
    by simp
  from rotate_status_ok [OF vec this, of angle]
  obtain s where s: "rotate_status table angle l = Inr s" "status_ok (length table) l s"
    by blast
  from Cons.prems have "\<forall>l \<in> set labels. l = 0 \<or> (1 \<le> l \<and> l \<le> int (length table))"
    by simp
  from Cons.IH [OF this, of "acc @ [s]"] obtain outs where
    "ucs_loop table angle labels (acc @ [s]) = Inr ((acc @ [s]) @ outs)"
    "list_all2 (status_ok (length table)) labels outs"
    by blast
  with s show ?case by (intro exI [of _ "s # outs"]) simp
qed

text \<open>
  C10 (contact labels). For a reference table with at least one vector, each vector
  with at least two components, and labels that are 0 or index into the table,
  \<^verbatim>\<open>updateContactStatus\<close> returns a list of the same length; an output is 0
  exactly where the input is 0, and every other output lies between 1 and the length of
  the table.
\<close>

theorem updateContactStatus_labels:
  assumes "table \<noteq> []"
    and "\<forall>v \<in> set table. 2 \<le> length v"
    and "\<forall>l \<in> set labels. l = 0 \<or> (1 \<le> l \<and> l \<le> int (length table))"
  shows "\<exists>outs. updateContactStatus labels table angle = Inr outs
           \<and> length outs = length labels
           \<and> (\<forall>i < length labels.
                 ((outs ! i = 0) = (labels ! i = 0))
                 \<and> (outs ! i = 0 \<or> (1 \<le> outs ! i \<and> outs ! i \<le> int (length table))))"
proof -
  obtain outs where o: "ucs_loop table angle labels [] = Inr ([] @ outs)"
    "list_all2 (status_ok (length table)) labels outs"
    using ucs_loop_ok [OF assms(2) assms(3)] by blast
  then have "length outs = length labels"
    by (simp add: list_all2_lengthD)
  moreover from o(2) have "\<forall>i < length labels. status_ok (length table) (labels ! i) (outs ! i)"
    by (simp add: list_all2_conv_all_nth)
  ultimately show ?thesis
    using o(1) by (auto simp: updateContactStatus_def status_ok_def)
qed

theorem updateContactStatus_labels_witness:
  "[[1, 0], [0, 1 :: real]] \<noteq> []
   \<and> list_all (\<lambda>v. 2 \<le> length v) [[1, 0], [0, 1 :: real]]
   \<and> list_all (\<lambda>l. l = 0 \<or> (1 \<le> l \<and> l \<le> int (length [[1, 0], [0, 1 :: real]]))) [0, 2, 1 :: int]
   \<and> (\<exists>outs. updateContactStatus [0, 2, 1] [[1, 0], [0, 1]] 90 = Inr outs
           \<and> length outs = length [0, 2, 1 :: int]
           \<and> (\<forall>i < length [0, 2, 1 :: int].
                 ((outs ! i = 0) = ([0, 2, 1 :: int] ! i = 0))
                 \<and> (outs ! i = 0
                      \<or> (1 \<le> outs ! i \<and> outs ! i \<le> int (length [[1, 0], [0, 1 :: real]])))))"
proof -
  have h1: "[[1, 0], [0, 1 :: real]] \<noteq> []" by simp
  have h2: "\<forall>v \<in> set [[1, 0], [0, 1 :: real]]. 2 \<le> length v" by simp
  have h3: "\<forall>l \<in> set [0, 2, 1 :: int].
              l = 0 \<or> (1 \<le> l \<and> l \<le> int (length [[1, 0], [0, 1 :: real]]))"
    by simp
  from updateContactStatus_labels [OF h1 h2 h3, of 90] h1 h2 h3 show ?thesis
    by (simp only: list_all_iff) blast
qed

end
